theory Spec2Isabelle
  imports Complex_Main
begin

section \<open>The driver \<^verbatim>\<open>compile-train-graphs-fsts\<close>\<close>

text \<open>
  The program under study is \<^verbatim>\<open>bin/compile-train-graphs-fsts.cc\<close>: it loads a tree, a
  transition model, a lexicon transducer and a list of disambiguation symbols, builds a
  \<^verbatim>\<open>TrainingGraphCompiler\<close>, and then turns every grammar transducer of an input archive
  into a decoding graph of an output archive, either one utterance at a time
  (\<^verbatim>\<open>batch_size == 1\<close>) or in batches.

  The compiler class itself (\<^verbatim>\<open>decoder/training-graph-compiler.h\<close>), the option parser,
  the table reader and writer and the logging macros are not part of the file. Their
  calls appear below as parameters: a function for each call, with the object the call
  may change passed in and returned.
\<close>

subsection \<open>Transducers\<close>

text \<open>
  \<^verbatim>\<open>fst::VectorFst<fst::StdArc>\<close> of OpenFst: a vector of states and a start state, which
  is \<^verbatim>\<open>kNoStateId\<close> (that is \<open>-1\<close>) when the transducer has none. The weight type
  (\<^verbatim>\<open>TropicalWeight\<close>, a float) is the parameter \<open>'w\<close>: the driver never looks at a weight.
  Symbol tables and property bits are left out.
\<close>

definition kNoStateId :: int where
  "kNoStateId = - 1"

record 'w StdArc =
  ilabel :: int
  olabel :: int
  weight :: 'w
  nextstate :: int

record 'w FstState =
  final :: 'w
  arcs :: "'w StdArc list"

record 'w VectorFst =
  Start :: int
  States :: "'w FstState list"

text \<open>The default constructor \<^verbatim>\<open>VectorFst<StdArc> decode_fst;\<close> gives the empty transducer.\<close>

definition VectorFst_new :: "'w VectorFst" where
  "VectorFst_new = \<lparr>Start = kNoStateId, States = []\<rparr>"

text \<open>\<^verbatim>\<open>DeleteStates()\<close> removes every state and resets the start state.\<close>

definition DeleteStates :: "'w VectorFst \<Rightarrow> 'w VectorFst" where
  "DeleteStates f = f\<lparr>States := [], Start := kNoStateId\<rparr>"

text \<open>
  The start state of a transducer that respects OpenFst's interface is either
  \<^verbatim>\<open>kNoStateId\<close> or the index of one of its states.
\<close>

definition valid_start :: "'w VectorFst \<Rightarrow> bool" where
  "valid_start f \<longleftrightarrow>
     Start f = kNoStateId \<or> (0 \<le> Start f \<and> Start f < int (length (States f)))"

subsection \<open>The state of the two loops\<close>

text \<open>
  \<^verbatim>\<open>fst_reader\<close> is the list of the archive's entries that are still to be read:
  \<^verbatim>\<open>Done()\<close> is emptiness, \<^verbatim>\<open>Key()\<close> and \<^verbatim>\<open>Value()\<close> are the components of the head and
  \<^verbatim>\<open>Next()\<close> drops the head. \<^verbatim>\<open>fst_writer\<close> is the list of the entries written so far,
  in the order of the \<^verbatim>\<open>Write\<close> calls. The two counters are C++ \<^verbatim>\<open>int\<close>s that only grow
  by one per utterance; they are unbounded integers here, which is what they are for
  archives of fewer than \<open>2^31\<close> entries.
\<close>

type_synonym 'w archive = "(string \<times> 'w VectorFst) list"

record 'w run_state =
  fst_writer :: "'w archive"
  num_succeed :: int
  num_fail :: int

text \<open>
  The two methods of the compiler object \<^verbatim>\<open>gc\<close> that the driver calls. Neither is
  \<^verbatim>\<open>const\<close>, so each takes the compiler and returns it with the result.
  \<^verbatim>\<open>CompileGraph(grammar, &decode_fst)\<close> also takes the transducer it writes into.
\<close>

type_synonym ('c, 'w) CompileGraph_fn =
  "'c \<Rightarrow> 'w VectorFst \<Rightarrow> 'w VectorFst \<Rightarrow> bool \<times> 'w VectorFst \<times> 'c"

type_synonym ('c, 'w) CompileGraphs_fn =
  "'c \<Rightarrow> 'w VectorFst list \<Rightarrow> bool \<times> 'w VectorFst list \<times> 'c"

text \<open>
  The ways the run can end early. \<^verbatim>\<open>exit(1)\<close> is in the file; an exception is caught at
  the end of \<^verbatim>\<open>main\<close>, which then returns \<open>-1\<close>; a failed \<^verbatim>\<open>assert\<close> calls \<^verbatim>\<open>abort\<close>
  (status 134 to a shell).
\<close>

datatype fatal =
    UsageExit
  | ReadException
  | KaldiExit
  | LexiconNull
  | KaldiErr
  | AssertFailed

text \<open>
  Modelled from the spec: the macros \<^verbatim>\<open>KALDI_EXIT\<close> and \<^verbatim>\<open>KALDI_ERR\<close> come from
  \<^verbatim>\<open>base/kaldi-common.h\<close>, which is not among the sources. The spec says of the failures
  they report that they are fatal and that the program ends with a non-zero status:
  \<^verbatim>\<open>KALDI_EXIT\<close> is taken to exit with status 1 and \<^verbatim>\<open>KALDI_ERR\<close> to throw, so that
  \<^verbatim>\<open>main\<close> returns \<open>-1\<close>.
\<close>

fun exit_status :: "fatal \<Rightarrow> int" where
  "exit_status UsageExit = 1"
| "exit_status ReadException = - 1"
| "exit_status KaldiExit = 1"
| "exit_status LexiconNull = 1"
| "exit_status KaldiErr = - 1"
| "exit_status AssertFailed = 134"

subsection \<open>The loop for \<^verbatim>\<open>batch_size == 1\<close>\<close>

text \<open>The body of the \<^verbatim>\<open>for\<close> loop of lines 125 to 139, for the entry \<open>(key, grammar)\<close>.\<close>

definition sequential_body ::
  "('c, 'w) CompileGraph_fn \<Rightarrow> 'c \<Rightarrow> 'w run_state \<Rightarrow> string \<Rightarrow> 'w VectorFst
     \<Rightarrow> 'c \<times> 'w run_state" where
  "sequential_body CompileGraph gc st key grammar =
     (case CompileGraph gc grammar VectorFst_new of
        (ok, compiled, gc') \<Rightarrow>
          let decode_fst = (if \<not> ok then DeleteStates compiled else compiled);
              st' = (if Start decode_fst \<noteq> kNoStateId
                     then st\<lparr>num_succeed := num_succeed st + 1\<rparr>
                     else st\<lparr>num_fail := num_fail st + 1\<rparr>)
          in (gc', st'\<lparr>fst_writer := fst_writer st' @ [(key, decode_fst)]\<rparr>))"

fun sequential_loop ::
  "('c, 'w) CompileGraph_fn \<Rightarrow> 'c \<Rightarrow> 'w run_state \<Rightarrow> 'w archive \<Rightarrow> 'c \<times> 'w run_state" where
  "sequential_loop CompileGraph gc st [] = (gc, st)"
| "sequential_loop CompileGraph gc st ((key, grammar) # fst_reader) =
     (case sequential_body CompileGraph gc st key grammar of
        (gc', st') \<Rightarrow> sequential_loop CompileGraph gc' st' fst_reader)"

subsection \<open>The loop for every other \<^verbatim>\<open>batch_size\<close>\<close>

text \<open>
  The inner \<^verbatim>\<open>for\<close> loop of lines 146 to 151: it moves entries from the reader to
  \<^verbatim>\<open>keys\<close> and \<^verbatim>\<open>grammars\<close> while the reader is not done and \<^verbatim>\<open>grammars\<close> has fewer
  than \<^verbatim>\<open>batch_size\<close> elements. It returns the two vectors and the reader.
\<close>

fun fill_batch ::
  "int \<Rightarrow> 'w archive \<Rightarrow> string list \<Rightarrow> 'w VectorFst list
     \<Rightarrow> string list \<times> 'w VectorFst list \<times> 'w archive" where
  "fill_batch batch_size [] keys grammars = (keys, grammars, [])"
| "fill_batch batch_size ((key, grammar) # fst_reader) keys grammars =
     (if int (length grammars) < batch_size
      then fill_batch batch_size fst_reader (keys @ [key]) (grammars @ [grammar])
      else (keys, grammars, (key, grammar) # fst_reader))"

text \<open>
  How a loop ends: \<open>Inl\<close> with the cause, the reader and the state at the point where
  the run is cut short, \<open>Inr\<close> with the compiler, the reader and the state when the loop
  is left in the ordinary way.
\<close>

type_synonym ('c, 'w) loop_end =
  "(fatal \<times> 'w archive \<times> 'w run_state) + ('c \<times> 'w archive \<times> 'w run_state)"

text \<open>
  One turn of the \<^verbatim>\<open>while\<close> loop of lines 143 to 162, entered with a reader that is not
  done. \<^verbatim>\<open>KALDI_ERR\<close> and the \<^verbatim>\<open>assert\<close> end the run (the \<^verbatim>\<open>assert\<close> is taken as
  compiled in: nothing in the file defines \<^verbatim>\<open>NDEBUG\<close>); otherwise every graph is
  written under the key at its index and all of them are added to \<^verbatim>\<open>num_succeed\<close>.
\<close>

definition batch_body ::
  "int \<Rightarrow> ('c, 'w) CompileGraphs_fn \<Rightarrow> 'c \<Rightarrow> 'w archive \<Rightarrow> 'w run_state
     \<Rightarrow> ('c, 'w) loop_end" where
  "batch_body batch_size CompileGraphs gc fst_reader st =
     (case fill_batch batch_size fst_reader [] [] of
        (keys, grammars, fst_reader') \<Rightarrow>
          (case CompileGraphs gc grammars of
             (ok, fsts, gc') \<Rightarrow>
               if \<not> ok then Inl (KaldiErr, fst_reader', st)
               else if length fsts \<noteq> length keys then Inl (AssertFailed, fst_reader', st)
               else Inr (gc', fst_reader',
                         st\<lparr>fst_writer := fst_writer st @ zip keys fsts,
                            num_succeed := num_succeed st + int (length fsts)\<rparr>)))"

text \<open>
  The \<^verbatim>\<open>while\<close> loop itself. Nothing in the file bounds the number of its turns, so its
  result is optional: \<open>None\<close> is a run that never leaves the loop.
\<close>

partial_function (option) batched_loop ::
  "int \<Rightarrow> ('c, 'w) CompileGraphs_fn \<Rightarrow> 'c \<Rightarrow> 'w archive \<Rightarrow> 'w run_state
     \<Rightarrow> ('c, 'w) loop_end option" where
  "batched_loop batch_size CompileGraphs gc fst_reader st =
     (if fst_reader = [] then Some (Inr (gc, fst_reader, st))
      else case batch_body batch_size CompileGraphs gc fst_reader st of
             Inl stop \<Rightarrow> Some (Inl stop)
           | Inr (gc', fst_reader', st') \<Rightarrow>
               batched_loop batch_size CompileGraphs gc' fst_reader' st')"

text \<open>Lines 121 to 163: the counters start at zero and \<^verbatim>\<open>batch_size\<close> picks the loop.\<close>

definition compile_all ::
  "int \<Rightarrow> ('c, 'w) CompileGraph_fn \<Rightarrow> ('c, 'w) CompileGraphs_fn \<Rightarrow> 'c \<Rightarrow> 'w archive
     \<Rightarrow> ('c, 'w) loop_end option" where
  "compile_all batch_size CompileGraph CompileGraphs gc fst_reader =
     (let st = \<lparr>fst_writer = [], num_succeed = 0, num_fail = 0\<rparr>
      in if batch_size = 1
         then (case sequential_loop CompileGraph gc st fst_reader of
                 (gc', st') \<Rightarrow> Some (Inr (gc', [], st')))
         else batched_loop batch_size CompileGraphs gc fst_reader st)"

subsection \<open>The command line, the files and \<^verbatim>\<open>main\<close>\<close>

text \<open>
  The two fields of \<^verbatim>\<open>TrainingGraphCompilerOptions\<close> that the driver sets. The driver
  only stores these numbers and hands them to the compiler's constructor: it sets both
  to zero before the options are read (lines 52 and 54). The arc weights that the
  compiler computes from them are floating-point numbers inside the compiler class, and
  nothing is stated about them here.
\<close>

record TrainingGraphCompilerOptions =
  trans_prob_scale :: real
  self_loop_scale :: real

text \<open>
  Everything \<^verbatim>\<open>main\<close> gets from outside: the command line after \<^verbatim>\<open>po.Read\<close> (the
  positional arguments and the options that were given), what each file holds, and the
  compiler class. A read that throws, or returns \<^verbatim>\<open>NULL\<close> or \<^verbatim>\<open>false\<close>, is \<open>None\<close>.
\<close>

record ('t, 'm, 'w, 'c) world =
  positional :: "string list"
  opt_batch_size :: "int option"
  opt_read_disambig_syms :: "string option"
  opt_transition_scale :: "real option"
  opt_self_loop_scale :: "real option"
  read_ContextDependency :: "string \<Rightarrow> 't option"
  read_TransitionModel :: "string \<Rightarrow> 'm option"
  ifstream_good :: "string \<Rightarrow> bool"
  VectorFst_Read :: "string \<Rightarrow> 'w VectorFst option"
  ReadIntegerVectorSimple :: "string \<Rightarrow> int list option"
  SequentialTableReader :: "string \<Rightarrow> 'w archive"
  TrainingGraphCompiler ::
    "'m \<Rightarrow> 't \<Rightarrow> 'w VectorFst \<Rightarrow> int list \<Rightarrow> TrainingGraphCompilerOptions \<Rightarrow> 'c"
  gc_CompileGraph :: "('c, 'w) CompileGraph_fn"
  gc_CompileGraphs :: "('c, 'w) CompileGraphs_fn"

text \<open>
  What can be seen of a run that ends: the exit status, the entries of the output
  archive, how many entries of the input archive the reader has moved past, and the two
  numbers of the last log line when that line is reached.
\<close>

record 'w outcome =
  status :: int
  written :: "'w archive"
  consumed :: nat
  summary :: "(int \<times> int) option"

definition stopped :: "fatal \<Rightarrow> 'w outcome" where
  "stopped e = \<lparr>status = exit_status e, written = [], consumed = 0, summary = None\<rparr>"

fun report :: "'w archive \<Rightarrow> ('c, 'w) loop_end \<Rightarrow> 'w outcome" where
  "report archive (Inl (e, fst_reader, st)) =
     \<lparr>status = exit_status e, written = fst_writer st,
      consumed = length archive - length fst_reader, summary = None\<rparr>"
| "report archive (Inr (gc, fst_reader, st)) =
     \<lparr>status = 0, written = fst_writer st,
      consumed = length archive - length fst_reader,
      summary = Some (num_succeed st, num_fail st)\<rparr>"

text \<open>
  Lines 50 to 116 of \<^verbatim>\<open>main\<close>: the defaults and the options, the five arguments, the
  tree, the model, the lexicon, the disambiguation symbols and the compiler. The result
  is the compiler, or the reason why the run ends here. \<^verbatim>\<open>GetArg\<close> counts from one.
  The warning of lines 109 to 113 only logs.
\<close>

definition load_compiler :: "('t, 'm, 'w, 'c) world \<Rightarrow> fatal + 'c" where
  "load_compiler w =
     (let gopts = \<lparr>trans_prob_scale = (case opt_transition_scale w of None \<Rightarrow> 0 | Some x \<Rightarrow> x),
                   self_loop_scale = (case opt_self_loop_scale w of None \<Rightarrow> 0 | Some x \<Rightarrow> x)\<rparr>;
          disambig_rxfilename = (case opt_read_disambig_syms w of None \<Rightarrow> [] | Some f \<Rightarrow> f)
      in if length (positional w) \<noteq> 5 then Inl UsageExit
         else
           let tree_rxfilename = positional w ! 0;
               model_rxfilename = positional w ! 1;
               lex_rxfilename = positional w ! 2
           in case read_ContextDependency w tree_rxfilename of
                None \<Rightarrow> Inl ReadException
              | Some ctx_dep \<Rightarrow>
           (case read_TransitionModel w model_rxfilename of
                None \<Rightarrow> Inl ReadException
              | Some trans_model \<Rightarrow>
           if \<not> ifstream_good w lex_rxfilename then Inl KaldiExit
           else
           (case VectorFst_Read w lex_rxfilename of
                None \<Rightarrow> Inl LexiconNull
              | Some lex_fst \<Rightarrow>
           (case (if disambig_rxfilename \<noteq> []
                  then ReadIntegerVectorSimple w disambig_rxfilename else Some []) of
                None \<Rightarrow> Inl KaldiErr
              | Some disambig_syms \<Rightarrow>
                  Inr (TrainingGraphCompiler w trans_model ctx_dep lex_fst disambig_syms gopts)))))"

text \<open>
  \<^verbatim>\<open>main\<close>: once the compiler is there, the reader is opened on the fourth argument and
  the loops run with the \<^verbatim>\<open>batch_size\<close> of the command line, 250 when none is given.
\<close>

definition main :: "('t, 'm, 'w, 'c) world \<Rightarrow> 'w outcome option" where
  "main w =
     (case load_compiler w of
        Inl e \<Rightarrow> Some (stopped e)
      | Inr gc \<Rightarrow>
          let batch_size = (case opt_batch_size w of None \<Rightarrow> 250 | Some b \<Rightarrow> b);
              archive = SequentialTableReader w (positional w ! 3)
          in map_option (report archive)
               (compile_all batch_size (gc_CompileGraph w) (gc_CompileGraphs w) gc archive))"

subsection \<open>Calls of the compiler in sequence\<close>

text \<open>
  The results of calling \<^verbatim>\<open>CompileGraph\<close> once for each grammar of a list, in order, on
  the same compiler and each time into a new transducer: the flag and the graph of each
  call, and the compiler after the last one.
\<close>

fun CompileGraph_each ::
  "('c, 'w) CompileGraph_fn \<Rightarrow> 'c \<Rightarrow> 'w VectorFst list \<Rightarrow> (bool \<times> 'w VectorFst) list \<times> 'c" where
  "CompileGraph_each CompileGraph gc [] = ([], gc)"
| "CompileGraph_each CompileGraph gc (grammar # grammars) =
     (case CompileGraph gc grammar VectorFst_new of
        (ok, compiled, gc') \<Rightarrow>
          (case CompileGraph_each CompileGraph gc' grammars of
             (results, gc'') \<Rightarrow> ((ok, compiled) # results, gc'')))"

text \<open>
  Modelled from the spec: \<^verbatim>\<open>TrainingGraphCompiler::CompileGraphs\<close> is declared in
  \<^verbatim>\<open>decoder/training-graph-compiler.h\<close>, which is not among the sources. The spec says
  that it returns one decoding graph per input, in the same order, that its output is
  identical to calling \<^verbatim>\<open>CompileGraph\<close> once per element of the batch, element-wise, and
  that a grammar that cannot be compiled fails its one graph and not the batch.
\<close>

definition CompileGraphs_spec :: "('c, 'w) CompileGraph_fn \<Rightarrow> ('c, 'w) CompileGraphs_fn" where
  "CompileGraphs_spec CompileGraph gc grammars =
     (case CompileGraph_each CompileGraph gc grammars of
        (results, gc') \<Rightarrow> (True, map snd results, gc'))"

text \<open>
  Modelled from the spec: what the spec requires of \<^verbatim>\<open>CompileGraph\<close>, which is not among
  the sources, when it fails: it returns false and an empty graph.
\<close>

definition empty_on_failure :: "('c, 'w) CompileGraph_fn \<Rightarrow> bool" where
  "empty_on_failure CompileGraph \<longleftrightarrow>
     (\<forall>gc grammar. case CompileGraph gc grammar VectorFst_new of
        (ok, compiled, gc') \<Rightarrow> \<not> ok \<longrightarrow> compiled = VectorFst_new)"

text \<open>
  The part of the contract of \<^verbatim>\<open>CompileGraphs\<close> that the driver checks after each call:
  the call returns true and as many graphs as it was given grammars.
\<close>

definition one_graph_per_grammar :: "('c, 'w) CompileGraphs_fn \<Rightarrow> bool" where
  "one_graph_per_grammar CompileGraphs \<longleftrightarrow>
     (\<forall>gc grammars. fst (CompileGraphs gc grammars) \<and>
        length (fst (snd (CompileGraphs gc grammars))) = length grammars)"

text \<open>
  The state of the batched loop after \<open>n\<close> turns, when there are that many and none of
  them ends the run.
\<close>

fun after_batches ::
  "nat \<Rightarrow> int \<Rightarrow> ('c, 'w) CompileGraphs_fn \<Rightarrow> 'c \<Rightarrow> 'w archive \<Rightarrow> 'w run_state
     \<Rightarrow> ('c \<times> 'w archive \<times> 'w run_state) option" where
  "after_batches 0 batch_size CompileGraphs gc fst_reader st = Some (gc, fst_reader, st)"
| "after_batches (Suc n) batch_size CompileGraphs gc fst_reader st =
     (if fst_reader = [] then None
      else case batch_body batch_size CompileGraphs gc fst_reader st of
             Inl stop \<Rightarrow> None
           | Inr (gc', fst_reader', st') \<Rightarrow>
               after_batches n batch_size CompileGraphs gc' fst_reader' st')"

subsection \<open>A small compiler to run the driver on\<close>

text \<open>
  A stand-in for the compiler class, used to run the loops on concrete archives: it
  has no state, fails on a grammar without a start state and otherwise returns the
  grammar itself. Its batch method compiles every grammar of the batch.
\<close>

definition stub_CompileGraph :: "(unit, int) CompileGraph_fn" where
  "stub_CompileGraph gc grammar decode_fst =
     (if Start grammar = kNoStateId then (False, decode_fst, gc) else (True, grammar, gc))"

definition stub_CompileGraphs :: "(unit, int) CompileGraphs_fn" where
  "stub_CompileGraphs gc grammars =
     (True, map (\<lambda>grammar. if Start grammar = kNoStateId then VectorFst_new else grammar) grammars, gc)"

definition one_state_fst :: "int VectorFst" where
  "one_state_fst = \<lparr>Start = 0, States = [\<lparr>final = 0, arcs = []\<rparr>]\<rparr>"

text \<open>
  A command line and a set of files on which every read succeeds, around that compiler:
  the five arguments of the usage message, a list of disambiguation symbols, a
  \<^verbatim>\<open>batch_size\<close> option and an input archive, both left open.
\<close>

definition stub_world :: "int option \<Rightarrow> int archive \<Rightarrow> (unit, unit, int, unit) world" where
  "stub_world batch_size_option archive =
     \<lparr>positional = [''tree'', ''1.mdl'', ''lex.fst'', ''ark:train.fsts'', ''ark:graphs.fsts''],
      opt_batch_size = batch_size_option,
      opt_read_disambig_syms = Some ''disambig.list'',
      opt_transition_scale = None,
      opt_self_loop_scale = None,
      read_ContextDependency = (\<lambda>rxfilename. Some ()),
      read_TransitionModel = (\<lambda>rxfilename. Some ()),
      ifstream_good = (\<lambda>rxfilename. True),
      VectorFst_Read = (\<lambda>rxfilename. Some one_state_fst),
      ReadIntegerVectorSimple = (\<lambda>rxfilename. Some [3, 4]),
      SequentialTableReader = (\<lambda>rspecifier. archive),
      TrainingGraphCompiler = (\<lambda>trans_model ctx_dep lex_fst disambig_syms gopts. ()),
      gc_CompileGraph = stub_CompileGraph,
      gc_CompileGraphs = stub_CompileGraphs\<rparr>"

subsection \<open>What the counters should say\<close>

text \<open>
  The two counters agree with the output archive when \<^verbatim>\<open>num_succeed\<close> is the number of
  entries written with a start state and \<^verbatim>\<open>num_fail\<close> the number of entries written
  without one.
\<close>

definition counted :: "'w run_state \<Rightarrow> bool" where
  "counted st \<longleftrightarrow>
     num_succeed st = int (length (filter (\<lambda>(key, f). Start f \<noteq> kNoStateId) (fst_writer st))) \<and>
     num_fail st = int (length (filter (\<lambda>(key, f). Start f = kNoStateId) (fst_writer st)))"

section \<open>Facts about the loops\<close>

subsection \<open>The batch that the inner loop fills\<close>

lemma fill_batch_eq:
  "fill_batch bs r ks gs =
     (ks @ map fst (take (nat (bs - int (length gs))) r),
      gs @ map snd (take (nat (bs - int (length gs))) r),
      drop (nat (bs - int (length gs))) r)"
proof (induction bs r ks gs rule: fill_batch.induct)
  case (1 bs ks gs)
  show ?case by simp
next
  case (2 bs key grammar r ks gs)
  show ?case
  proof (cases "int (length gs) < bs")
    case True
    then obtain n where n: "nat (bs - int (length gs)) = Suc n" "nat (bs - int (length (gs @ [grammar]))) = n"
      by (cases "nat (bs - int (length gs))") auto
    with True 2 show ?thesis by simp
  next
    case False
    then show ?thesis by simp
  qed
qed

lemma fill_batch_start:
  "fill_batch bs r [] [] = (map fst (take (nat bs) r), map snd (take (nat bs) r), drop (nat bs) r)"
  by (simp add: fill_batch_eq)

lemma batched_loop_Nil:
  "batched_loop bs CGs gc [] st = Some (Inr (gc, [], st))"
  by (subst batched_loop.simps) simp

lemma batched_loop_stop:
  "r \<noteq> [] \<Longrightarrow> batch_body bs CGs gc r st = Inl e \<Longrightarrow> batched_loop bs CGs gc r st = Some (Inl e)"
  by (subst batched_loop.simps) simp

lemma batched_loop_next:
  "r \<noteq> [] \<Longrightarrow> batch_body bs CGs gc r st = Inr (gc', r', st')
     \<Longrightarrow> batched_loop bs CGs gc r st = batched_loop bs CGs gc' r' st'"
  by (subst batched_loop.simps) simp

lemma batch_body_Inr:
  assumes "batch_body bs CGs gc r st = Inr (gc', r', st')"
  shows "\<exists>fsts. CGs gc (map snd (take (nat bs) r)) = (True, fsts, gc')
           \<and> length fsts = length (take (nat bs) r)
           \<and> r' = drop (nat bs) r
           \<and> st' = st\<lparr>fst_writer := fst_writer st @ zip (map fst (take (nat bs) r)) fsts,
                       num_succeed := num_succeed st + int (length fsts)\<rparr>"
  using assms
  by (auto simp: batch_body_def fill_batch_start split: prod.splits if_splits)

lemma batch_body_Inl:
  assumes "batch_body bs CGs gc r st = Inl (e, r', st')"
  shows "r' = drop (nat bs) r \<and> st' = st \<and>
         (case CGs gc (map snd (take (nat bs) r)) of
            (ok, fsts, _) \<Rightarrow> if \<not> ok then e = KaldiErr
                             else e = AssertFailed \<and> length fsts \<noteq> length (take (nat bs) r))"
  using assms
  by (auto simp: batch_body_def fill_batch_start split: prod.splits if_splits)

lemma batched_loop_terminates:
  assumes "1 \<le> bs"
  shows "\<exists>res. batched_loop bs CGs gc r st = Some res"
proof (induction "length r" arbitrary: gc r st rule: less_induct)
  case less
  show ?case
  proof (cases "r = []")
    case True
    then show ?thesis by (simp add: batched_loop_Nil)
  next
    case False
    show ?thesis
    proof (cases "batch_body bs CGs gc r st")
      case (Inl e)
      with False show ?thesis by (simp add: batched_loop_stop)
    next
      case (Inr x)
      obtain gc' r' st' where x: "x = (gc', r', st')" by (cases x) auto
      from Inr x have "batch_body bs CGs gc r st = Inr (gc', r', st')" by simp
      from batch_body_Inr[OF this] have "r' = drop (nat bs) r" by auto
      with assms False have "length r' < length r" by (cases r) auto
      from less[OF this] obtain res where "batched_loop bs CGs gc' r' st' = Some res" by blast
      with False Inr x show ?thesis by (simp add: batched_loop_next)
    qed
  qed
qed

lemma batch_body_stuck:
  assumes "bs \<le> 0" and "CGs gc [] = (True, [], gc')"
  shows "batch_body bs CGs gc r st = Inr (gc', r, st)"
  using assms by (simp add: batch_body_def fill_batch_start)

lemma batched_loop_diverges:
  fixes CGs :: "('c, 'w) CompileGraphs_fn"
  assumes "bs \<le> 0" and "r \<noteq> []"
    and "\<forall>gc. \<exists>gc'. CGs gc [] = (True, [], gc')"
  shows "batched_loop bs CGs gc r st = None"
proof (rule ccontr)
  assume "batched_loop bs CGs gc r st \<noteq> None"
  then obtain y where y: "batched_loop bs CGs gc r st = Some y" by auto
  have "\<not> (bs \<le> 0 \<and> r \<noteq> [] \<and> (\<forall>gc. \<exists>gc'. CGs gc [] = (True, [], gc')))"
  proof (rule batched_loop.raw_induct
      [where P = "\<lambda>bs CGs gc r st y. \<not> (bs \<le> 0 \<and> r \<noteq> [] \<and> (\<forall>gc. \<exists>gc'. CGs gc [] = (True, [], gc')))",
       OF _ y])
    fix loop :: "int \<Rightarrow> ('c, 'w) CompileGraphs_fn \<Rightarrow> 'c \<Rightarrow> 'w archive \<Rightarrow> 'w run_state
        \<Rightarrow> ('c, 'w) loop_end option"
    fix bs CGs gc r st y
    assume ih: "\<And>bs CGs gc r st y. loop bs CGs gc r st = Some y \<Longrightarrow>
                  \<not> (bs \<le> 0 \<and> r \<noteq> [] \<and> (\<forall>gc. \<exists>gc'. CGs gc [] = (True, [], gc')))"
    assume body: "(if r = [] then Some (Inr (gc, r, st))
                   else case batch_body bs CGs gc r st of
                          Inl stop \<Rightarrow> Some (Inl stop)
                        | Inr (gc', r', st') \<Rightarrow> loop bs CGs gc' r' st') = Some y"
    show "\<not> (bs \<le> 0 \<and> r \<noteq> [] \<and> (\<forall>gc. \<exists>gc'. CGs gc [] = (True, [], gc')))"
    proof
      assume a: "bs \<le> 0 \<and> r \<noteq> [] \<and> (\<forall>gc. \<exists>gc'. CGs gc [] = (True, [], gc'))"
      then obtain gc' where "CGs gc [] = (True, [], gc')" by blast
      with a have "batch_body bs CGs gc r st = Inr (gc', r, st)"
        by (simp add: batch_body_stuck)
      with a body have "loop bs CGs gc' r st = Some y" by simp
      from ih[OF this] a show False by blast
    qed
  qed
  with assms show False by blast
qed

lemma batched_loop_finished:
  fixes CGs :: "('c, 'w) CompileGraphs_fn"
  assumes "batched_loop bs CGs gc r st = Some (Inr (gc', r', st'))"
  shows "r' = [] \<and> map fst (fst_writer st') = map fst (fst_writer st) @ map fst r
         \<and> num_succeed st' = num_succeed st + int (length r) \<and> num_fail st' = num_fail st"
proof -
  let ?P = "\<lambda>(bs::int) (CGs::('c, 'w) CompileGraphs_fn) (gc::'c) (r::'w archive) (st::'w run_state) (y::('c, 'w) loop_end).
     \<forall>gc' r' st'. y = Inr (gc', r', st') \<longrightarrow>
          r' = [] \<and> map fst (fst_writer st') = map fst (fst_writer st) @ map fst r
          \<and> num_succeed st' = num_succeed st + int (length r) \<and> num_fail st' = num_fail st"
  have "?P bs CGs gc r st (Inr (gc', r', st'))"
  proof (rule batched_loop.raw_induct[where P = ?P, OF _ assms])
    fix loop :: "int \<Rightarrow> ('c, 'w) CompileGraphs_fn \<Rightarrow> 'c \<Rightarrow> 'w archive \<Rightarrow> 'w run_state
        \<Rightarrow> ('c, 'w) loop_end option"
    fix bs CGs gc r st y
    assume ih: "\<And>bs CGs gc r st y. loop bs CGs gc r st = Some y \<Longrightarrow> ?P bs CGs gc r st y"
    assume body: "(if r = [] then Some (Inr (gc, r, st))
                   else case batch_body bs CGs gc r st of
                          Inl stop \<Rightarrow> Some (Inl stop)
                        | Inr (gc', r', st') \<Rightarrow> loop bs CGs gc' r' st') = Some y"
    show "?P bs CGs gc r st y"
    proof (cases "r = []")
      case True
      with body show ?thesis by auto
    next
      case False
      show ?thesis
      proof (cases "batch_body bs CGs gc r st")
        case (Inl e)
        with False body show ?thesis by auto
      next
        case (Inr x)
        obtain gc1 r1 st1 where x: "x = (gc1, r1, st1)" by (cases x) auto
        from Inr x have "batch_body bs CGs gc r st = Inr (gc1, r1, st1)" by simp
        from batch_body_Inr[OF this] obtain fsts where
          f: "length fsts = length (take (nat bs) r)" "r1 = drop (nat bs) r"
             "st1 = st\<lparr>fst_writer := fst_writer st @ zip (map fst (take (nat bs) r)) fsts,
                       num_succeed := num_succeed st + int (length fsts)\<rparr>"
          by auto
        from False Inr x body have "loop bs CGs gc1 r1 st1 = Some y" by simp
        from ih[OF this] have ih': "\<forall>gc' r' st'. y = Inr (gc', r', st') \<longrightarrow>
          r' = [] \<and> map fst (fst_writer st') = map fst (fst_writer st1) @ map fst r1
          \<and> num_succeed st' = num_succeed st1 + int (length r1) \<and> num_fail st' = num_fail st1" .
        have k: "map fst (zip (map fst (take (nat bs) r)) fsts) = map fst (take (nat bs) r)"
          using f(1) by simp
        have a: "map fst (take (nat bs) r) @ map fst (drop (nat bs) r) = map fst r"
          by (simp flip: map_append)
        have b: "int (length fsts) + int (length r1) = int (length r)"
          unfolding f(1,2) by (simp flip: of_nat_add)
        show ?thesis
        proof (intro allI impI)
          fix gc' r' st' assume "y = Inr (gc', r', st')"
          with ih' have r: "r' = []" "map fst (fst_writer st') = map fst (fst_writer st1) @ map fst r1"
            "num_succeed st' = num_succeed st1 + int (length r1)" "num_fail st' = num_fail st1"
            by auto
          have "map fst (fst_writer st1) @ map fst r1 = map fst (fst_writer st) @ map fst r"
            unfolding f(2,3) using k a by simp
          moreover have "num_succeed st1 + int (length r1) = num_succeed st + int (length r)"
            using b by (simp add: f(3))
          moreover have "num_fail st1 = num_fail st" by (simp add: f(3))
          ultimately show "r' = [] \<and> map fst (fst_writer st') = map fst (fst_writer st) @ map fst r
            \<and> num_succeed st' = num_succeed st + int (length r) \<and> num_fail st' = num_fail st"
            using r by simp
        qed
      qed
    qed
  qed
  then show ?thesis by blast
qed

lemma batched_loop_stopped:
  fixes CGs :: "('c, 'w) CompileGraphs_fn"
  assumes "batched_loop bs CGs gc r st = Some (Inl x)"
  shows "\<exists>gc1 gs. \<not> fst (CGs gc1 gs) \<or> length (fst (snd (CGs gc1 gs))) \<noteq> length gs"
proof -
  let ?P = "\<lambda>(bs::int) (CGs::('c, 'w) CompileGraphs_fn) (gc::'c) (r::'w archive)
              (st::'w run_state) (y::('c, 'w) loop_end).
     \<forall>x. y = Inl x \<longrightarrow>
       (\<exists>gc1 gs. \<not> fst (CGs gc1 gs) \<or> length (fst (snd (CGs gc1 gs))) \<noteq> length gs)"
  have "?P bs CGs gc r st (Inl x)"
  proof (rule batched_loop.raw_induct[where P = ?P, OF _ assms])
    fix loop :: "int \<Rightarrow> ('c, 'w) CompileGraphs_fn \<Rightarrow> 'c \<Rightarrow> 'w archive \<Rightarrow> 'w run_state
        \<Rightarrow> ('c, 'w) loop_end option"
    fix bs CGs gc r st y
    assume ih: "\<And>bs CGs gc r st y. loop bs CGs gc r st = Some y \<Longrightarrow> ?P bs CGs gc r st y"
    assume body: "(if r = [] then Some (Inr (gc, r, st))
                   else case batch_body bs CGs gc r st of
                          Inl stop \<Rightarrow> Some (Inl stop)
                        | Inr (gc', r', st') \<Rightarrow> loop bs CGs gc' r' st') = Some y"
    show "?P bs CGs gc r st y"
    proof (cases "r = []")
      case True
      with body show ?thesis by auto
    next
      case False
      show ?thesis
      proof (cases "batch_body bs CGs gc r st")
        case (Inl stop)
        obtain e r' st' where stop: "stop = (e, r', st')" by (cases stop) auto
        from Inl stop have "batch_body bs CGs gc r st = Inl (e, r', st')" by simp
        from batch_body_Inl[OF this]
        have "\<not> fst (CGs gc (map snd (take (nat bs) r))) \<or>
              length (fst (snd (CGs gc (map snd (take (nat bs) r)))))
                \<noteq> length (map snd (take (nat bs) r))"
          by (auto split: prod.splits if_splits)
        then show ?thesis
          by (intro allI impI exI[of _ gc] exI[of _ "map snd (take (nat bs) r)"])
      next
        case (Inr x)
        obtain gc1 r1 st1 where x: "x = (gc1, r1, st1)" by (cases x) auto
        from False Inr x body have "loop bs CGs gc1 r1 st1 = Some y" by simp
        from ih[OF this] show ?thesis .
      qed
    qed
  qed
  then show ?thesis by blast
qed

lemma batched_loop_honoured:
  fixes CGs :: "('c, 'w) CompileGraphs_fn"
  assumes "1 \<le> bs"
    and "one_graph_per_grammar CGs"
  shows "\<exists>gc' st'. batched_loop bs CGs gc r st = Some (Inr (gc', [], st'))"
proof -
  from batched_loop_terminates[OF assms(1), of CGs gc r st] obtain res
    where res: "batched_loop bs CGs gc r st = Some res" by blast
  show ?thesis
  proof (cases res)
    case (Inl x)
    with res have "batched_loop bs CGs gc r st = Some (Inl x)" by simp
    from batched_loop_stopped[OF this] assms(2) have False
      unfolding one_graph_per_grammar_def by blast
    then show ?thesis ..
  next
    case (Inr y)
    obtain gc' r' st' where y: "y = (gc', r', st')" by (cases y) auto
    with res Inr have f: "batched_loop bs CGs gc r st = Some (Inr (gc', r', st'))" by simp
    from batched_loop_finished[OF this] have "r' = []" by simp
    with f show ?thesis by blast
  qed
qed

subsection \<open>The loop for one utterance at a time\<close>

lemma DeleteStates_new: "DeleteStates (f :: 'w VectorFst) = VectorFst_new"
  by (simp add: DeleteStates_def VectorFst_new_def)

lemma sequential_body_eq:
  assumes "CG gc g VectorFst_new = (ok, f, gc')"
  shows "sequential_body CG gc st key g =
           (gc', \<lparr>fst_writer = fst_writer st @ [(key, if ok then f else VectorFst_new)],
                  num_succeed = num_succeed st + (if ok \<and> Start f \<noteq> kNoStateId then 1 else 0),
                  num_fail = num_fail st + (if ok \<and> Start f \<noteq> kNoStateId then 0 else 1)\<rparr>)"
  using assms
  by (simp add: sequential_body_def DeleteStates_new Let_def) (simp add: VectorFst_new_def)

lemma sequential_body_counted:
  assumes "counted st" and "sequential_body CG gc st key g = (gc', st')"
  shows "counted st'"
proof -
  obtain ok f gc1 where c: "CG gc g VectorFst_new = (ok, f, gc1)"
    by (cases "CG gc g VectorFst_new") auto
  show ?thesis
    using assms unfolding sequential_body_eq[where CG = CG, OF c] counted_def
    by (auto simp: VectorFst_new_def)
qed

lemma sequential_loop_counted:
  "counted st \<Longrightarrow> sequential_loop CG gc st r = (gc', st') \<Longrightarrow> counted st'"
proof (induction r arbitrary: gc st)
  case Nil
  then show ?case by simp
next
  case (Cons e r)
  obtain key g where e: "e = (key, g)" by (cases e)
  obtain gc1 st1 where b: "sequential_body CG gc st key g = (gc1, st1)"
    by (cases "sequential_body CG gc st key g")
  from Cons.prems(1) b have "counted st1" by (rule sequential_body_counted)
  moreover from Cons.prems(2) e b have "sequential_loop CG gc1 st1 r = (gc', st')" by simp
  ultimately show ?case by (rule Cons.IH)
qed

lemma sequential_loop_each:
  assumes "CompileGraph_each CG gc (map snd r) = (rs, gc1)"
    and "sequential_loop CG gc st r = (gc', st')"
  shows "gc' = gc1 \<and> length rs = length r \<and>
         fst_writer st' = fst_writer st @
           map (\<lambda>(e, res). (fst e, if fst res then snd res else VectorFst_new)) (zip r rs)"
  using assms
proof (induction r arbitrary: gc st rs)
  case Nil
  then show ?case by simp
next
  case (Cons e r)
  obtain key g where e: "e = (key, g)" by (cases e)
  obtain ok f gc2 where c: "CG gc g VectorFst_new = (ok, f, gc2)"
    by (cases "CG gc g VectorFst_new") auto
  obtain rs2 gc3 where t: "CompileGraph_each CG gc2 (map snd r) = (rs2, gc3)"
    by (cases "CompileGraph_each CG gc2 (map snd r)")
  from Cons.prems(1) e c t have rs: "rs = (ok, f) # rs2" "gc1 = gc3" by auto
  from t rs have t': "CompileGraph_each CG gc2 (map snd r) = (rs2, gc1)" by simp
  let ?st1 = "\<lparr>fst_writer = fst_writer st @ [(key, if ok then f else VectorFst_new)],
                  num_succeed = num_succeed st + (if ok \<and> Start f \<noteq> kNoStateId then 1 else 0),
                  num_fail = num_fail st + (if ok \<and> Start f \<noteq> kNoStateId then 0 else 1)\<rparr>"
  from Cons.prems(2) e have "sequential_loop CG gc2 ?st1 r = (gc', st')"
    by (simp add: sequential_body_eq[where CG = CG, OF c])
  from Cons.IH[OF t' this] show ?case
    using rs e by simp
qed

lemma sequential_loop_keys:
  "sequential_loop CG gc st r = (gc', st') \<Longrightarrow>
     map fst (fst_writer st') = map fst (fst_writer st) @ map fst r"
proof (induction r arbitrary: gc st)
  case Nil
  then show ?case by simp
next
  case (Cons e r)
  obtain key g where e: "e = (key, g)" by (cases e)
  obtain ok f gc2 where c: "CG gc g VectorFst_new = (ok, f, gc2)"
    by (cases "CG gc g VectorFst_new") auto
  let ?st1 = "\<lparr>fst_writer = fst_writer st @ [(key, if ok then f else VectorFst_new)],
                  num_succeed = num_succeed st + (if ok \<and> Start f \<noteq> kNoStateId then 1 else 0),
                  num_fail = num_fail st + (if ok \<and> Start f \<noteq> kNoStateId then 0 else 1)\<rparr>"
  from Cons.prems e have "sequential_loop CG gc2 ?st1 r = (gc', st')"
    by (simp add: sequential_body_eq[where CG = CG, OF c])
  from Cons.IH[OF this] show ?case using e by simp
qed

subsection \<open>The batched loop, turn by turn\<close>

lemma exit_status_nonzero: "exit_status e \<noteq> 0"
  by (cases e) simp_all

lemma after_batches_loop:
  "after_batches n bs CGs gc r st = Some (gc1, r1, st1)
     \<Longrightarrow> batched_loop bs CGs gc r st = batched_loop bs CGs gc1 r1 st1"
proof (induction n arbitrary: gc r st)
  case 0
  then show ?case by simp
next
  case (Suc n)
  from Suc.prems have ne: "r \<noteq> []" by (auto split: if_splits)
  from Suc.prems ne obtain gc2 r2 st2 where
    b: "batch_body bs CGs gc r st = Inr (gc2, r2, st2)"
    and a: "after_batches n bs CGs gc2 r2 st2 = Some (gc1, r1, st1)"
    by (auto split: sum.splits)
  from batched_loop_next[OF ne b] Suc.IH[OF a] show ?case by simp
qed

lemma after_batches_state:
  "after_batches n bs CGs gc r st = Some (gc1, r1, st1)
     \<Longrightarrow> num_fail st1 = num_fail st \<and>
         map fst (fst_writer st1) @ map fst r1 = map fst (fst_writer st) @ map fst r"
proof (induction n arbitrary: gc r st)
  case 0
  then show ?case by simp
next
  case (Suc n)
  from Suc.prems have ne: "r \<noteq> []" by (auto split: if_splits)
  from Suc.prems ne obtain gc2 r2 st2 where
    b: "batch_body bs CGs gc r st = Inr (gc2, r2, st2)"
    and a: "after_batches n bs CGs gc2 r2 st2 = Some (gc1, r1, st1)"
    by (auto split: sum.splits)
  from batch_body_Inr[OF b] obtain fsts where
    f: "length fsts = length (take (nat bs) r)" "r2 = drop (nat bs) r"
       "st2 = st\<lparr>fst_writer := fst_writer st @ zip (map fst (take (nat bs) r)) fsts,
                 num_succeed := num_succeed st + int (length fsts)\<rparr>"
    by auto
  have k: "map fst (zip (map fst (take (nat bs) r)) fsts) = map fst (take (nat bs) r)"
    using f(1) by simp
  have "map fst (fst_writer st2) @ map fst r2
          = map fst (fst_writer st) @ (map fst (take (nat bs) r) @ map fst (drop (nat bs) r))"
    unfolding f(2,3) using k by simp
  also have "map fst (take (nat bs) r) @ map fst (drop (nat bs) r) = map fst r"
    by (simp flip: map_append)
  finally have "map fst (fst_writer st2) @ map fst r2 = map fst (fst_writer st) @ map fst r" .
  moreover have "num_fail st2 = num_fail st" by (simp add: f(3))
  ultimately show ?case using Suc.IH[OF a] by simp
qed

subsection \<open>The whole program\<close>

lemma main_loaded:
  assumes "load_compiler w = Inr gc"
  shows "main w = map_option (report (SequentialTableReader w (positional w ! 3)))
           (compile_all (case opt_batch_size w of None \<Rightarrow> 250 | Some b \<Rightarrow> b)
              (gc_CompileGraph w) (gc_CompileGraphs w) gc (SequentialTableReader w (positional w ! 3)))"
  using assms by (simp add: main_def Let_def)

lemma main_stopped:
  assumes "load_compiler w = Inl e"
  shows "main w = Some (stopped e)"
  using assms by (simp add: main_def)

lemma empty_batch_accepted:
  fixes CGs :: "('c, 'w) CompileGraphs_fn"
  assumes "\<forall>gc. fst (CGs gc []) \<and> fst (snd (CGs gc [])) = []"
  shows "\<forall>gc. \<exists>gc'. CGs gc [] = (True, [], gc')"
proof
  fix gc
  from assms have "fst (CGs gc [])" "fst (snd (CGs gc [])) = []" by simp_all
  then have "CGs gc [] = (True, [], snd (snd (CGs gc [])))"
    by (cases "CGs gc []") auto
  then show "\<exists>gc'. CGs gc [] = (True, [], gc')" ..
qed

subsection \<open>One call per grammar against one call per batch\<close>

lemma CompileGraph_each_length:
  "length (fst (CompileGraph_each CG gc gs)) = length gs"
proof (induction gs arbitrary: gc)
  case Nil
  then show ?case by simp
next
  case (Cons g gs)
  obtain ok f gc1 where c: "CG gc g VectorFst_new = (ok, f, gc1)"
    by (cases "CG gc g VectorFst_new") auto
  with Cons.IH[of gc1] show ?case by (auto split: prod.splits)
qed

lemma CompileGraph_each_append:
  "CompileGraph_each CG gc (xs @ ys) =
     (case CompileGraph_each CG gc xs of
        (rs1, gc1) \<Rightarrow> (case CompileGraph_each CG gc1 ys of
                        (rs2, gc2) \<Rightarrow> (rs1 @ rs2, gc2)))"
proof (induction xs arbitrary: gc)
  case Nil
  then show ?case by (simp split: prod.splits)
next
  case (Cons x xs)
  obtain ok f gc1 where c: "CG gc x VectorFst_new = (ok, f, gc1)"
    by (cases "CG gc x VectorFst_new") auto
  with Cons.IH[of gc1] show ?case by (auto split: prod.splits)
qed

lemma CompileGraph_each_empty_on_failure:
  assumes "empty_on_failure CG"
  shows "\<forall>res \<in> set (fst (CompileGraph_each CG gc gs)). \<not> fst res \<longrightarrow> snd res = VectorFst_new"
proof (induction gs arbitrary: gc)
  case Nil
  then show ?case by simp
next
  case (Cons g gs)
  obtain ok f gc1 where c: "CG gc g VectorFst_new = (ok, f, gc1)"
    by (cases "CG gc g VectorFst_new") auto
  from assms[unfolded empty_on_failure_def, rule_format, of gc g] c
  have "\<not> ok \<longrightarrow> f = VectorFst_new" by simp
  with Cons.IH[of gc1] c show ?case by (auto split: prod.splits)
qed

lemma written_graphs_agree:
  "length A = length rs \<Longrightarrow> \<forall>res \<in> set rs. \<not> fst res \<longrightarrow> snd res = VectorFst_new \<Longrightarrow>
     map (\<lambda>(e, res). (fst e, if fst res then snd res else VectorFst_new)) (zip A rs)
       = zip (map fst A) (map snd rs)"
  by (induction A rs rule: list_induct2) simp_all

lemma batched_loop_spec:
  fixes CG :: "('c, 'w) CompileGraph_fn"
  assumes "1 \<le> bs"
  shows "CompileGraph_each CG gc (map snd r) = (rs, gc1) \<Longrightarrow>
         batched_loop bs (CompileGraphs_spec CG) gc r st =
           Some (Inr (gc1, [], st\<lparr>fst_writer := fst_writer st @ zip (map fst r) (map snd rs),
                                   num_succeed := num_succeed st + int (length r)\<rparr>))"
proof (induction "length r" arbitrary: gc r st rs rule: less_induct)
  case less
  show ?case
  proof (cases "r = []")
    case True
    with less.prems show ?thesis by (simp add: batched_loop_Nil)
  next
    case False
    let ?n = "nat bs"
    obtain rsa gca where a: "CompileGraph_each CG gc (map snd (take ?n r)) = (rsa, gca)"
      by (cases "CompileGraph_each CG gc (map snd (take ?n r))")
    obtain rsb gcb where b: "CompileGraph_each CG gca (map snd (drop ?n r)) = (rsb, gcb)"
      by (cases "CompileGraph_each CG gca (map snd (drop ?n r))")
    have "map snd (take ?n r) @ map snd (drop ?n r) = map snd r"
      by (simp flip: map_append)
    with CompileGraph_each_append[of CG gc "map snd (take ?n r)" "map snd (drop ?n r)"] a b less.prems
    have rs: "rs = rsa @ rsb" "gc1 = gcb"
      by simp_all
    from CompileGraph_each_length[of CG gc "map snd (take ?n r)"] a
    have la: "length rsa = length (take ?n r)" by simp
    let ?st1 = "st\<lparr>fst_writer := fst_writer st @ zip (map fst (take ?n r)) (map snd rsa),
                    num_succeed := num_succeed st + int (length (map snd rsa))\<rparr>"
    have body: "batch_body bs (CompileGraphs_spec CG) gc r st = Inr (gca, drop ?n r, ?st1)"
      using a la by (simp add: batch_body_def fill_batch_start CompileGraphs_spec_def)
    from assms False have "length (drop ?n r) < length r" by (cases r) auto
    from less.hyps[OF this, of gca rsb ?st1] b rs
    have "batched_loop bs (CompileGraphs_spec CG) gca (drop ?n r) ?st1 =
            Some (Inr (gc1, [], ?st1\<lparr>fst_writer := fst_writer ?st1 @ zip (map fst (drop ?n r)) (map snd rsb),
                                   num_succeed := num_succeed ?st1 + int (length (drop ?n r))\<rparr>))"
      by simp
    moreover have "zip (map fst (take ?n r)) (map snd rsa) @ zip (map fst (drop ?n r)) (map snd rsb)
                     = zip (map fst r) (map snd rs)"
    proof -
      have "zip (map fst (take ?n r) @ map fst (drop ?n r)) (map snd rsa @ map snd rsb)
              = zip (map fst (take ?n r)) (map snd rsa) @ zip (map fst (drop ?n r)) (map snd rsb)"
        using la by (intro zip_append) simp
      moreover have "map fst (take ?n r) @ map fst (drop ?n r) = map fst r"
        by (simp flip: map_append)
      ultimately show ?thesis using rs by simp
    qed
    moreover have "int (length (map snd rsa)) + int (length (drop ?n r)) = int (length r)"
      using la by (simp flip: of_nat_add)
    ultimately have "batched_loop bs (CompileGraphs_spec CG) gca (drop ?n r) ?st1 =
            Some (Inr (gc1, [], st\<lparr>fst_writer := fst_writer st @ zip (map fst r) (map snd rs),
                                   num_succeed := num_succeed st + int (length r)\<rparr>))"
      by (simp add: add.assoc)
    with batched_loop_next[OF False body] show ?thesis by simp
  qed
qed

lemma load_compiler_batch_size [simp]:
  "load_compiler (w\<lparr>opt_batch_size := b\<rparr>) = load_compiler w"
  by (simp add: load_compiler_def Let_def split: option.splits)

section \<open>The claims\<close>

text \<open>
  Claim C1. Let \<^verbatim>\<open>CompileGraphs\<close> be what the spec says it is, one call of
  \<^verbatim>\<open>CompileGraph\<close> per grammar of the batch, and let \<^verbatim>\<open>CompileGraph\<close> return an empty
  graph whenever it returns false. Then on the same command line, files and input
  archive, the run with \<^verbatim>\<open>batch_size\<close> 1 and the run with any \<^verbatim>\<open>batch_size\<close> greater than
  1 both end, with the same status and with the same output archive: the same keys in
  the same order, each with the same graph. When the compiler could be loaded, that
  status is 0 and the archive has one entry per input entry.
\<close>

theorem C1_batch_size_does_not_change_the_archive:
  fixes w :: "('t, 'm, 'w, 'c) world"
  assumes "1 < bs"
    and "gc_CompileGraphs w = CompileGraphs_spec (gc_CompileGraph w)"
    and "empty_on_failure (gc_CompileGraph w)"
  shows "\<exists>sequential batched.
           main (w\<lparr>opt_batch_size := Some 1\<rparr>) = Some sequential
         \<and> main (w\<lparr>opt_batch_size := Some bs\<rparr>) = Some batched
         \<and> written sequential = written batched
         \<and> status sequential = status batched
         \<and> ((\<exists>gc. load_compiler w = Inr gc) \<longrightarrow>
              status sequential = 0 \<and>
              length (written sequential) = length (SequentialTableReader w (positional w ! 3)))"
proof (cases "load_compiler w")
  case (Inl e)
  then have "main (w\<lparr>opt_batch_size := Some 1\<rparr>) = Some (stopped e)"
    "main (w\<lparr>opt_batch_size := Some bs\<rparr>) = Some (stopped e)"
    by (simp_all add: main_stopped)
  with Inl show ?thesis by simp
next
  case (Inr gc)
  let ?CG = "gc_CompileGraph w"
  let ?A = "SequentialTableReader w (positional w ! 3)"
  let ?st0 = "\<lparr>fst_writer = [], num_succeed = 0, num_fail = 0\<rparr> :: 'w run_state"
  obtain rs gc1 where e: "CompileGraph_each ?CG gc (map snd ?A) = (rs, gc1)"
    by (cases "CompileGraph_each ?CG gc (map snd ?A)")
  obtain gc2 st1 where l: "sequential_loop ?CG gc ?st0 ?A = (gc2, st1)"
    by (cases "sequential_loop ?CG gc ?st0 ?A")
  from sequential_loop_each[OF e l]
  have len: "length rs = length ?A"
    and w1: "fst_writer st1 =
      map (\<lambda>(e, res). (fst e, if fst res then snd res else VectorFst_new)) (zip ?A rs)"
    by simp_all
  let ?st2 = "?st0\<lparr>fst_writer := fst_writer ?st0 @ zip (map fst ?A) (map snd rs),
                   num_succeed := num_succeed ?st0 + int (length ?A)\<rparr>"
  from assms(1) have "1 \<le> bs" by simp
  from batched_loop_spec[OF this e]
  have b: "batched_loop bs (CompileGraphs_spec ?CG) gc ?A ?st0 = Some (Inr (gc1, [], ?st2))" .
  from CompileGraph_each_empty_on_failure[OF assms(3), of gc "map snd ?A"] e
  have emp: "\<forall>res \<in> set rs. \<not> fst res \<longrightarrow> snd res = VectorFst_new" by simp
  from len have "length ?A = length rs" by simp
  from written_graphs_agree[OF this emp] w1 have same: "fst_writer st1 = fst_writer ?st2" by simp
  have m1: "main (w\<lparr>opt_batch_size := Some 1\<rparr>) = Some (report ?A (Inr (gc2, [], st1)))"
    using Inr l by (simp add: main_def compile_all_def Let_def)
  have m2: "main (w\<lparr>opt_batch_size := Some bs\<rparr>) = Some (report ?A (Inr (gc1, [], ?st2)))"
    using Inr b assms(1,2) by (simp add: main_def compile_all_def Let_def)
  from w1 len have "length (fst_writer st1) = length ?A" by simp
  with m1 m2 same show ?thesis by simp
qed

theorem C1_batch_size_does_not_change_the_archive_witness:
  "(1::int) < 2
   \<and> gc_CompileGraphs
         (stub_world None [(''utt1'', one_state_fst), (''utt2'', VectorFst_new), (''utt3'', one_state_fst)]
            \<lparr>gc_CompileGraphs := CompileGraphs_spec stub_CompileGraph\<rparr>)
       = CompileGraphs_spec
           (gc_CompileGraph
              (stub_world None [(''utt1'', one_state_fst), (''utt2'', VectorFst_new), (''utt3'', one_state_fst)]
                 \<lparr>gc_CompileGraphs := CompileGraphs_spec stub_CompileGraph\<rparr>))
   \<and> empty_on_failure stub_CompileGraph
   \<and> (\<exists>sequential batched.
         main (stub_world (Some 1) [(''utt1'', one_state_fst), (''utt2'', VectorFst_new), (''utt3'', one_state_fst)]
                 \<lparr>gc_CompileGraphs := CompileGraphs_spec stub_CompileGraph\<rparr>) = Some sequential
       \<and> main (stub_world (Some 2) [(''utt1'', one_state_fst), (''utt2'', VectorFst_new), (''utt3'', one_state_fst)]
                 \<lparr>gc_CompileGraphs := CompileGraphs_spec stub_CompileGraph\<rparr>) = Some batched
       \<and> written sequential = written batched
       \<and> status sequential = 0 \<and> status batched = 0
       \<and> length (written sequential) = 3)"
proof -
  let ?A = "[(''utt1'', one_state_fst), (''utt2'', VectorFst_new), (''utt3'', one_state_fst)]"
  let ?w = "stub_world None ?A\<lparr>gc_CompileGraphs := CompileGraphs_spec stub_CompileGraph\<rparr>"
  have h1: "(1::int) < 2" by simp
  have h2: "gc_CompileGraphs ?w = CompileGraphs_spec (gc_CompileGraph ?w)"
    by (simp add: stub_world_def)
  have h3: "empty_on_failure (gc_CompileGraph ?w)"
    by (simp add: stub_world_def empty_on_failure_def stub_CompileGraph_def)
  have l: "\<exists>gc. load_compiler ?w = Inr gc"
    by (simp add: load_compiler_def stub_world_def)
  have a: "SequentialTableReader ?w (positional ?w ! 3) = ?A"
    by (simp add: stub_world_def)
  have u: "?w\<lparr>opt_batch_size := b\<rparr>
             = stub_world b ?A\<lparr>gc_CompileGraphs := CompileGraphs_spec stub_CompileGraph\<rparr>" for b
    by (simp add: stub_world_def)
  from C1_batch_size_does_not_change_the_archive[OF h1 h2 h3]
  obtain sequential batched where
    s: "main (?w\<lparr>opt_batch_size := Some 1\<rparr>) = Some sequential"
    and b: "main (?w\<lparr>opt_batch_size := Some 2\<rparr>) = Some batched"
    and e: "written sequential = written batched" "status sequential = status batched"
    and i: "(\<exists>gc. load_compiler ?w = Inr gc) \<longrightarrow>
              status sequential = 0 \<and>
              length (written sequential) = length (SequentialTableReader ?w (positional ?w ! 3))"
    by blast
  from i l have "status sequential = 0"
    "length (written sequential) = length (SequentialTableReader ?w (positional ?w ! 3))"
    by blast+
  then have z: "status sequential = 0" "length (written sequential) = 3"
    unfolding a by simp_all
  from s b have
    "main (stub_world (Some 1) ?A\<lparr>gc_CompileGraphs := CompileGraphs_spec stub_CompileGraph\<rparr>)
       = Some sequential"
    "main (stub_world (Some 2) ?A\<lparr>gc_CompileGraphs := CompileGraphs_spec stub_CompileGraph\<rparr>)
       = Some batched"
    unfolding u .
  moreover from h3 have "empty_on_failure stub_CompileGraph" by (simp add: stub_world_def)
  moreover from z e have "status batched = 0" by simp
  ultimately show ?thesis using h1 h2 z e by blast
qed

text \<open>
  Claim C2, at an input where the program does not do what the claim says. The archive
  has one utterance, whose grammar cannot be compiled, so that the graph emitted for it
  is empty. With the default \<^verbatim>\<open>batch_size\<close> of 250 the run writes the empty graph and
  reports one success and no failure; with \<^verbatim>\<open>batch_size\<close> 1 the run writes the same
  graph and reports no success and one failure.
\<close>

theorem C2_batched_run_counts_empty_graph_as_succeeded:
  "main (stub_world None [(''utt1'', VectorFst_new)])
     = Some \<lparr>status = 0, written = [(''utt1'', VectorFst_new)], consumed = 1,
             summary = Some (1, 0)\<rparr>
   \<and> main (stub_world (Some 1) [(''utt1'', VectorFst_new)])
     = Some \<lparr>status = 0, written = [(''utt1'', VectorFst_new)], consumed = 1,
             summary = Some (0, 1)\<rparr>"
proof
  let ?A = "[(''utt1'', VectorFst_new :: int VectorFst)]"
  let ?st0 = "\<lparr>fst_writer = [], num_succeed = 0, num_fail = 0\<rparr> :: int run_state"
  let ?st1 = "\<lparr>fst_writer = ?A, num_succeed = 1, num_fail = 0\<rparr> :: int run_state"
  have l: "load_compiler (stub_world bso ?A) = Inr ()" for bso
    by (simp add: load_compiler_def stub_world_def)
  have b: "batch_body 250 stub_CompileGraphs () ?A ?st0 = Inr ((), [], ?st1)"
    by (simp add: batch_body_def stub_CompileGraphs_def VectorFst_new_def)
  have "batched_loop 250 stub_CompileGraphs () ?A ?st0 = batched_loop 250 stub_CompileGraphs () [] ?st1"
    by (rule batched_loop_next[OF _ b]) simp
  then have "compile_all 250 stub_CompileGraph stub_CompileGraphs () ?A = Some (Inr ((), [], ?st1))"
    by (simp add: compile_all_def batched_loop_Nil)
  then show "main (stub_world None ?A)
     = Some \<lparr>status = 0, written = ?A, consumed = 1, summary = Some (1, 0)\<rparr>"
    unfolding main_loaded[OF l] by (simp add: stub_world_def)
  have "compile_all 1 stub_CompileGraph stub_CompileGraphs () ?A
          = Some (Inr ((), [], \<lparr>fst_writer = ?A, num_succeed = 0, num_fail = 1\<rparr>))"
    by (simp add: compile_all_def sequential_body_def stub_CompileGraph_def DeleteStates_new)
       (simp add: VectorFst_new_def)
  then show "main (stub_world (Some 1) ?A)
     = Some \<lparr>status = 0, written = ?A, consumed = 1, summary = Some (0, 1)\<rparr>"
    unfolding main_loaded[OF l] by (simp add: stub_world_def)
qed

text \<open>
  Claim C3. When \<^verbatim>\<open>batch_size\<close> is 1 the run reaches its end, the output archive has one
  entry for each entry of the input archive, and for every utterance whose call of
  \<^verbatim>\<open>CompileGraph\<close> returns false the entry at its position carries its key and the
  empty graph: no start state and no states.
\<close>

theorem C3_failed_utterance_gets_empty_graph:
  fixes CG :: "('c, 'w) CompileGraph_fn" and CGs :: "('c, 'w) CompileGraphs_fn"
  shows "\<exists>gc' st. compile_all 1 CG CGs gc archive = Some (Inr (gc', [], st))
           \<and> length (fst_writer st) = length archive
           \<and> (\<forall>i < length archive.
                 \<not> fst (fst (CompileGraph_each CG gc (map snd archive)) ! i) \<longrightarrow>
                 fst_writer st ! i = (fst (archive ! i), \<lparr>Start = kNoStateId, States = []\<rparr>))"
proof -
  let ?st0 = "\<lparr>fst_writer = [], num_succeed = 0, num_fail = 0\<rparr> :: 'w run_state"
  obtain gc' st where l: "sequential_loop CG gc ?st0 archive = (gc', st)"
    by (cases "sequential_loop CG gc ?st0 archive")
  obtain rs gc1 where e: "CompileGraph_each CG gc (map snd archive) = (rs, gc1)"
    by (cases "CompileGraph_each CG gc (map snd archive)")
  from sequential_loop_each[OF e l]
  have len: "length rs = length archive"
    and w: "fst_writer st =
      map (\<lambda>(e, res). (fst e, if fst res then snd res else VectorFst_new)) (zip archive rs)"
    by simp_all
  have "fst_writer st ! i = (fst (archive ! i), \<lparr>Start = kNoStateId, States = []\<rparr>)"
    if "i < length archive" "\<not> fst (rs ! i)" for i
    using that len unfolding w by (simp add: VectorFst_new_def)
  moreover have "length (fst_writer st) = length archive"
    unfolding w using len by simp
  ultimately show ?thesis using l e by (simp add: compile_all_def)
qed

theorem C3_failed_utterance_gets_empty_graph_witness:
  "(1::nat) < length [(''utt1'', one_state_fst), (''utt2'', VectorFst_new :: int VectorFst)]
   \<and> \<not> fst (fst (CompileGraph_each stub_CompileGraph ()
                   (map snd [(''utt1'', one_state_fst), (''utt2'', VectorFst_new)])) ! 1)
   \<and> (\<exists>gc' st. compile_all 1 stub_CompileGraph stub_CompileGraphs ()
                  [(''utt1'', one_state_fst), (''utt2'', VectorFst_new)] = Some (Inr (gc', [], st))
              \<and> length (fst_writer st) = 2
              \<and> fst_writer st ! 1 = (''utt2'', \<lparr>Start = kNoStateId, States = []\<rparr>))"
proof -
  have h: "\<not> fst (fst (CompileGraph_each stub_CompileGraph ()
                   (map snd [(''utt1'', one_state_fst), (''utt2'', VectorFst_new)])) ! 1)"
    by (simp add: stub_CompileGraph_def one_state_fst_def VectorFst_new_def kNoStateId_def)
  from C3_failed_utterance_gets_empty_graph[of stub_CompileGraph stub_CompileGraphs "()"
      "[(''utt1'', one_state_fst), (''utt2'', VectorFst_new)]"]
  obtain gc' st where
    r: "compile_all 1 stub_CompileGraph stub_CompileGraphs ()
          [(''utt1'', one_state_fst), (''utt2'', VectorFst_new)] = Some (Inr (gc', [], st))"
       "length (fst_writer st) = length [(''utt1'', one_state_fst), (''utt2'', VectorFst_new :: int VectorFst)]"
       "\<forall>i < length [(''utt1'', one_state_fst), (''utt2'', VectorFst_new :: int VectorFst)].
          \<not> fst (fst (CompileGraph_each stub_CompileGraph ()
                   (map snd [(''utt1'', one_state_fst), (''utt2'', VectorFst_new)])) ! i) \<longrightarrow>
          fst_writer st ! i = (fst ([(''utt1'', one_state_fst), (''utt2'', VectorFst_new)] ! i),
                               \<lparr>Start = kNoStateId, States = []\<rparr>)"
    by blast
  from r(3) h have "fst_writer st ! 1 = (''utt2'', \<lparr>Start = kNoStateId, States = []\<rparr>)"
    by (metis One_nat_def length_Cons lessI list.size(3) nth_Cons_0 nth_Cons_Suc fst_conv)
  with r(1,2) h show ?thesis by auto
qed

text \<open>
  Claim C4. For every input archive the run reaches its end with an output archive whose
  keys are the keys of the input archive, in the same order, one entry per key. This
  holds for \<^verbatim>\<open>batch_size\<close> 1 whatever the compiler does, and for every larger
  \<^verbatim>\<open>batch_size\<close> when every call of \<^verbatim>\<open>CompileGraphs\<close> returns true with one graph per
  grammar; an utterance that fails to compile still has its entry. Moreover, whatever
  \<^verbatim>\<open>batch_size\<close> and the compiler are, a run that reaches the summary line has read the
  whole input archive and has written exactly its keys, in order.
\<close>

theorem C4_output_keys_in_input_order:
  fixes CG :: "('c, 'w) CompileGraph_fn" and CGs :: "('c, 'w) CompileGraphs_fn"
  shows "(bs = 1 \<or> (1 \<le> bs \<and> one_graph_per_grammar CGs) \<longrightarrow>
            (\<exists>gc' st. compile_all bs CG CGs gc archive = Some (Inr (gc', [], st))
                \<and> map fst (fst_writer st) = map fst archive))
       \<and> (\<forall>gc' fst_reader st.
            compile_all bs CG CGs gc archive = Some (Inr (gc', fst_reader, st)) \<longrightarrow>
            fst_reader = [] \<and> map fst (fst_writer st) = map fst archive)"
proof
  let ?st0 = "\<lparr>fst_writer = [], num_succeed = 0, num_fail = 0\<rparr> :: 'w run_state"
  have complete: "fst_reader = [] \<and> map fst (fst_writer st) = map fst archive"
    if r: "compile_all bs CG CGs gc archive = Some (Inr (gc', fst_reader, st))"
    for gc' fst_reader st
  proof (cases "bs = 1")
    case True
    obtain gc1 st1 where l: "sequential_loop CG gc ?st0 archive = (gc1, st1)"
      by (cases "sequential_loop CG gc ?st0 archive")
    from sequential_loop_keys[OF l] have "map fst (fst_writer st1) = map fst archive" by simp
    with True l r show ?thesis by (simp add: compile_all_def)
  next
    case False
    with r have "batched_loop bs CGs gc archive ?st0 = Some (Inr (gc', fst_reader, st))"
      by (simp add: compile_all_def)
    from batched_loop_finished[OF this] show ?thesis by simp
  qed
  then show "\<forall>gc' fst_reader st.
      compile_all bs CG CGs gc archive = Some (Inr (gc', fst_reader, st)) \<longrightarrow>
      fst_reader = [] \<and> map fst (fst_writer st) = map fst archive"
    by blast
  show "bs = 1 \<or> (1 \<le> bs \<and> one_graph_per_grammar CGs) \<longrightarrow>
          (\<exists>gc' st. compile_all bs CG CGs gc archive = Some (Inr (gc', [], st))
              \<and> map fst (fst_writer st) = map fst archive)"
  proof
    assume h: "bs = 1 \<or> (1 \<le> bs \<and> one_graph_per_grammar CGs)"
    have "\<exists>gc' st. compile_all bs CG CGs gc archive = Some (Inr (gc', [], st))"
    proof (cases "bs = 1")
      case True
      then show ?thesis by (simp add: compile_all_def split: prod.splits)
    next
      case False
      with h have "1 \<le> bs" "one_graph_per_grammar CGs" by auto
      from batched_loop_honoured[OF this, of gc archive ?st0] False
      show ?thesis by (simp add: compile_all_def)
    qed
    with complete show "\<exists>gc' st. compile_all bs CG CGs gc archive = Some (Inr (gc', [], st))
              \<and> map fst (fst_writer st) = map fst archive"
      by blast
  qed
qed

theorem C4_output_keys_in_input_order_witness:
  "((2::int) = 1 \<or> (1 \<le> (2::int) \<and> one_graph_per_grammar stub_CompileGraphs))
   \<and> (\<exists>gc' st. compile_all 2 stub_CompileGraph stub_CompileGraphs ()
                  [(''utt1'', one_state_fst), (''utt2'', VectorFst_new), (''utt3'', one_state_fst)]
                = Some (Inr (gc', [], st))
              \<and> map fst (fst_writer st) = [''utt1'', ''utt2'', ''utt3''])"
proof -
  have h: "(2::int) = 1 \<or> (1 \<le> (2::int) \<and> one_graph_per_grammar stub_CompileGraphs)"
    by (simp add: one_graph_per_grammar_def stub_CompileGraphs_def)
  from C4_output_keys_in_input_order[of 2 stub_CompileGraphs stub_CompileGraph "()"
      "[(''utt1'', one_state_fst), (''utt2'', VectorFst_new), (''utt3'', one_state_fst)]"] h
  have "\<exists>gc' st. compile_all 2 stub_CompileGraph stub_CompileGraphs ()
                  [(''utt1'', one_state_fst), (''utt2'', VectorFst_new), (''utt3'', one_state_fst)]
                = Some (Inr (gc', [], st))
              \<and> map fst (fst_writer st)
                  = map fst [(''utt1'', one_state_fst), (''utt2'', VectorFst_new :: int VectorFst),
                             (''utt3'', one_state_fst)]"
    by blast
  with h show ?thesis by simp
qed

text \<open>
  Claim C5. In the batched path, take any turn of the loop that the run reaches, that
  is, the state after some number of turns none of which ended the run. If in that turn
  \<^verbatim>\<open>CompileGraphs\<close> returns false, or returns a number of graphs that differs from the
  number of keys of the batch, the whole run ends there: with \<^verbatim>\<open>KALDI_ERR\<close> in the first
  case and the failed \<^verbatim>\<open>assert\<close> in the second, with a non-zero status and without the
  summary line. Nothing of the batch is written or counted, and \<^verbatim>\<open>num_fail\<close> is still
  zero: the violation is not turned into failed utterances.
\<close>

theorem C5_batch_violation_is_fatal:
  fixes CG :: "('c, 'w) CompileGraph_fn" and CGs :: "('c, 'w) CompileGraphs_fn"
  assumes "bs \<noteq> 1"
    and "after_batches n bs CGs gc archive \<lparr>fst_writer = [], num_succeed = 0, num_fail = 0\<rparr>
           = Some (gc_n, reader_n, st_n)"
    and "reader_n \<noteq> []"
    and "fill_batch bs reader_n [] [] = (keys, grammars, reader')"
    and "\<not> fst (CGs gc_n grammars) \<or> length (fst (snd (CGs gc_n grammars))) \<noteq> length keys"
  shows "\<exists>e. compile_all bs CG CGs gc archive = Some (Inl (e, reader', st_n))
            \<and> e = (if \<not> fst (CGs gc_n grammars) then KaldiErr else AssertFailed)
            \<and> status (report archive (Inl (e, reader', st_n) :: ('c, 'w) loop_end)) \<noteq> 0
            \<and> summary (report archive (Inl (e, reader', st_n) :: ('c, 'w) loop_end)) = None
            \<and> num_fail st_n = 0
            \<and> map fst (fst_writer st_n) @ map fst reader_n = map fst archive"
proof -
  let ?st0 = "\<lparr>fst_writer = [], num_succeed = 0, num_fail = 0\<rparr> :: 'w run_state"
  let ?e = "if \<not> fst (CGs gc_n grammars) then KaldiErr else AssertFailed"
  obtain ok fsts gc' where c: "CGs gc_n grammars = (ok, fsts, gc')"
    by (cases "CGs gc_n grammars") auto
  with assms(5) have v: "\<not> ok \<or> length fsts \<noteq> length keys" by simp
  have b: "batch_body bs CGs gc_n reader_n st_n = Inl (?e, reader', st_n)"
    using assms(4) c v by (auto simp: batch_body_def)
  from batched_loop_stop[OF assms(3) b] after_batches_loop[OF assms(2)]
  have "batched_loop bs CGs gc archive ?st0 = Some (Inl (?e, reader', st_n))" by simp
  with assms(1) have "compile_all bs CG CGs gc archive = Some (Inl (?e, reader', st_n))"
    by (simp add: compile_all_def)
  moreover from after_batches_state[OF assms(2)]
  have "num_fail st_n = 0" "map fst (fst_writer st_n) @ map fst reader_n = map fst archive"
    by simp_all
  moreover have "status (report archive (Inl (?e, reader', st_n) :: ('c, 'w) loop_end)) \<noteq> 0"
    by (simp add: exit_status_nonzero)
  moreover have "summary (report archive (Inl (?e, reader', st_n) :: ('c, 'w) loop_end)) = None"
    by simp
  ultimately show ?thesis by blast
qed

theorem C5_batch_violation_is_fatal_witness:
  "(2::int) \<noteq> 1
   \<and> after_batches (Suc 0) 2 (\<lambda>gc grammars. (length grammars = 2, grammars, gc)) ()
       [(''utt1'', one_state_fst), (''utt2'', one_state_fst), (''utt3'', one_state_fst)]
       \<lparr>fst_writer = [], num_succeed = 0, num_fail = 0\<rparr>
     = Some ((), [(''utt3'', one_state_fst)],
             \<lparr>fst_writer = [(''utt1'', one_state_fst), (''utt2'', one_state_fst)],
              num_succeed = 2, num_fail = 0\<rparr>)
   \<and> fill_batch 2 [(''utt3'', one_state_fst)] [] [] = ([''utt3''], [one_state_fst], [])
   \<and> \<not> fst ((\<lambda>gc grammars. (length grammars = 2, grammars, gc)) () [one_state_fst])
   \<and> compile_all 2 stub_CompileGraph (\<lambda>gc grammars. (length grammars = 2, grammars, gc)) ()
       [(''utt1'', one_state_fst), (''utt2'', one_state_fst), (''utt3'', one_state_fst)]
     = Some (Inl (KaldiErr, [],
                  \<lparr>fst_writer = [(''utt1'', one_state_fst), (''utt2'', one_state_fst)],
                   num_succeed = 2, num_fail = 0\<rparr>))"
proof -
  let ?CGs = "\<lambda>(gc::unit) (grammars::int VectorFst list). (length grammars = 2, grammars, gc)"
  let ?A = "[(''utt1'', one_state_fst), (''utt2'', one_state_fst), (''utt3'', one_state_fst)]"
  let ?st = "\<lparr>fst_writer = [(''utt1'', one_state_fst), (''utt2'', one_state_fst)],
              num_succeed = 2, num_fail = 0\<rparr> :: int run_state"
  have h1: "(2::int) \<noteq> 1" by simp
  have h2: "after_batches (Suc 0) 2 ?CGs () ?A \<lparr>fst_writer = [], num_succeed = 0, num_fail = 0\<rparr>
              = Some ((), [(''utt3'', one_state_fst)], ?st)"
    by (simp add: batch_body_def)
  have h3: "[(''utt3'', one_state_fst)] \<noteq> []" by simp
  have h4: "fill_batch 2 [(''utt3'', one_state_fst)] [] [] = ([''utt3''], [one_state_fst], [])"
    by simp
  have h5: "\<not> fst (?CGs () [one_state_fst])
            \<or> length (fst (snd (?CGs () [one_state_fst]))) \<noteq> length [''utt3'']"
    by simp
  from C5_batch_violation_is_fatal[where CGs = ?CGs and CG = stub_CompileGraph, OF h1 h2 h3 h4 h5]
  have "compile_all 2 stub_CompileGraph ?CGs () ?A = Some (Inl (KaldiErr, [], ?st))"
    by simp
  with h1 h2 h4 show ?thesis by simp
qed

text \<open>
  Claim C6. If the lexicon file cannot be opened, or cannot be parsed, or a
  disambiguation-symbol file is given and cannot be read, then \<^verbatim>\<open>main\<close> ends with a
  non-zero status, having written no entry, having read no entry of the input archive
  and without the summary line.
\<close>

theorem C6_unreadable_resource_ends_run_before_loops:
  fixes w :: "('t, 'm, 'w, 'c) world"
  assumes "\<not> ifstream_good w (positional w ! 2)
           \<or> VectorFst_Read w (positional w ! 2) = None
           \<or> (\<exists>f. opt_read_disambig_syms w = Some f \<and> f \<noteq> []
                  \<and> ReadIntegerVectorSimple w f = None)"
  shows "\<exists>oc. main w = Some oc \<and> status oc \<noteq> 0 \<and> written oc = [] \<and> consumed oc = 0
              \<and> summary oc = None"
proof -
  have "\<exists>e. load_compiler w = Inl e"
    using assms
    by (auto simp: load_compiler_def Let_def split: option.splits if_splits)
  then obtain e where "load_compiler w = Inl e" ..
  then have "main w = Some (stopped e)" by (rule main_stopped)
  moreover have "status (stopped e :: 'w outcome) \<noteq> 0"
    by (simp add: stopped_def exit_status_nonzero)
  moreover have "written (stopped e :: 'w outcome) = []" "consumed (stopped e :: 'w outcome) = 0"
    "summary (stopped e :: 'w outcome) = None"
    by (simp_all add: stopped_def)
  ultimately show ?thesis by blast
qed

theorem C6_unreadable_resource_ends_run_before_loops_witness:
  "VectorFst_Read (stub_world None [(''utt1'', one_state_fst)]\<lparr>VectorFst_Read := \<lambda>rxfilename. None\<rparr>)
     (positional (stub_world None [(''utt1'', one_state_fst)]\<lparr>VectorFst_Read := \<lambda>rxfilename. None\<rparr>) ! 2)
     = None
   \<and> (\<exists>oc. main (stub_world None [(''utt1'', one_state_fst)]\<lparr>VectorFst_Read := \<lambda>rxfilename. None\<rparr>)
             = Some oc
          \<and> status oc \<noteq> 0 \<and> written oc = [] \<and> consumed oc = 0 \<and> summary oc = None)"
proof -
  let ?w = "stub_world None [(''utt1'', one_state_fst)]\<lparr>VectorFst_Read := \<lambda>rxfilename. None\<rparr>"
  have h: "VectorFst_Read ?w (positional ?w ! 2) = None" by simp
  then have "\<not> ifstream_good ?w (positional ?w ! 2)
           \<or> VectorFst_Read ?w (positional ?w ! 2) = None
           \<or> (\<exists>f. opt_read_disambig_syms ?w = Some f \<and> f \<noteq> []
                  \<and> ReadIntegerVectorSimple ?w f = None)" by blast
  from C6_unreadable_resource_ends_run_before_loops[OF this] h show ?thesis by blast
qed

text \<open>
  Claim C9. Take a \<^verbatim>\<open>batch_size\<close> other than 1, which \<^verbatim>\<open>main\<close> hands to the loop as
  it comes from the command line, and a \<^verbatim>\<open>CompileGraphs\<close> that answers an empty batch
  with true and no graph. Then the batched loop ends on every input archive if and only
  if \<^verbatim>\<open>batch_size\<close> is at least 1. When \<^verbatim>\<open>batch_size\<close> is zero or negative and the
  reader is not done, one turn of the loop fills nothing, leaves the reader and the
  state as they were, and the loop never ends; so \<^verbatim>\<open>main\<close> never returns on an archive
  that is not empty, while it always returns when \<^verbatim>\<open>batch_size\<close> is at least 1.
\<close>

theorem C9_batched_loop_ends_iff_batch_size_positive:
  fixes w :: "('t, 'm, 'w, 'c) world"
  assumes "opt_batch_size w = Some bs" and "bs \<noteq> 1"
    and "\<forall>gc. fst (gc_CompileGraphs w gc []) \<and> fst (snd (gc_CompileGraphs w gc [])) = []"
  shows "((\<forall>gc archive. \<exists>res.
             compile_all bs (gc_CompileGraph w) (gc_CompileGraphs w) gc archive = Some res)
           \<longleftrightarrow> 1 \<le> bs)
       \<and> (bs \<le> 0 \<longrightarrow>
            (\<forall>gc archive st. archive \<noteq> [] \<longrightarrow>
               (\<exists>gc'. batch_body bs (gc_CompileGraphs w) gc archive st = Inr (gc', archive, st))
               \<and> compile_all bs (gc_CompileGraph w) (gc_CompileGraphs w) gc archive = None))
       \<and> (bs \<le> 0 \<and> (\<exists>gc. load_compiler w = Inr gc)
            \<and> SequentialTableReader w (positional w ! 3) \<noteq> [] \<longrightarrow> main w = None)
       \<and> (1 \<le> bs \<longrightarrow> (\<exists>oc. main w = Some oc))"
proof -
  let ?CG = "gc_CompileGraph w" and ?CGs = "gc_CompileGraphs w"
  note acc = empty_batch_accepted[where CGs = ?CGs, OF assms(3)]
  have all: "compile_all bs ?CG ?CGs gc archive = batched_loop bs ?CGs gc archive
               \<lparr>fst_writer = [], num_succeed = 0, num_fail = 0\<rparr>" for gc archive
    using assms(2) by (simp add: compile_all_def)
  have pos: "\<exists>res. compile_all bs ?CG ?CGs gc archive = Some res" if "1 \<le> bs" for gc archive
    unfolding all using that by (rule batched_loop_terminates)
  have div: "compile_all bs ?CG ?CGs gc archive = None" if "bs \<le> 0" "archive \<noteq> []" for gc archive
    unfolding all using that acc by (rule batched_loop_diverges)
  have stuck: "\<exists>gc'. batch_body bs ?CGs gc archive st = Inr (gc', archive, st)"
    if "bs \<le> 0" for gc archive st
  proof -
    from acc obtain gc' where "?CGs gc [] = (True, [], gc')" by blast
    from batch_body_stuck[where CGs = ?CGs, OF that this] show ?thesis by blast
  qed
  have iff: "(\<forall>gc archive. \<exists>res. compile_all bs ?CG ?CGs gc archive = Some res) \<longleftrightarrow> 1 \<le> bs"
  proof
    assume a: "\<forall>gc archive. \<exists>res. compile_all bs ?CG ?CGs gc archive = Some res"
    show "1 \<le> bs"
    proof (rule ccontr)
      assume "\<not> 1 \<le> bs"
      then have "bs \<le> 0" by simp
      then have "compile_all bs ?CG ?CGs undefined [([], VectorFst_new)] = None"
        by (rule div) simp
      moreover from a obtain res where
        "compile_all bs ?CG ?CGs undefined [([], VectorFst_new)] = Some res" by blast
      ultimately show False by simp
    qed
  next
    assume "1 \<le> bs"
    with pos show "\<forall>gc archive. \<exists>res. compile_all bs ?CG ?CGs gc archive = Some res" by blast
  qed
  have m0: "main w = None"
    if "bs \<le> 0" "\<exists>gc. load_compiler w = Inr gc" "SequentialTableReader w (positional w ! 3) \<noteq> []"
  proof -
    from that(2) obtain gc where "load_compiler w = Inr gc" ..
    from main_loaded[OF this] div[OF that(1,3)] assms(1) show ?thesis by simp
  qed
  have m1: "\<exists>oc. main w = Some oc" if "1 \<le> bs"
  proof (cases "load_compiler w")
    case (Inl e)
    then show ?thesis by (simp add: main_stopped)
  next
    case (Inr gc)
    from pos[OF that, of gc "SequentialTableReader w (positional w ! 3)"] main_loaded[OF Inr] assms(1)
    show ?thesis by auto
  qed
  from iff div stuck m0 m1 show ?thesis by blast
qed

theorem C9_batched_loop_ends_iff_batch_size_positive_witness:
  "opt_batch_size (stub_world (Some 0) [(''utt1'', one_state_fst)]) = Some 0
   \<and> (0::int) \<noteq> 1
   \<and> (\<forall>gc. fst (gc_CompileGraphs (stub_world (Some 0) [(''utt1'', one_state_fst)]) gc [])
         \<and> fst (snd (gc_CompileGraphs (stub_world (Some 0) [(''utt1'', one_state_fst)]) gc [])) = [])
   \<and> load_compiler (stub_world (Some 0) [(''utt1'', one_state_fst)]) = Inr ()
   \<and> main (stub_world (Some 0) [(''utt1'', one_state_fst)]) = None"
proof -
  let ?w = "stub_world (Some 0) [(''utt1'', one_state_fst)]"
  have h1: "opt_batch_size ?w = Some 0" by (simp add: stub_world_def)
  have h2: "(0::int) \<noteq> 1" by simp
  have h3: "\<forall>gc. fst (gc_CompileGraphs ?w gc []) \<and> fst (snd (gc_CompileGraphs ?w gc [])) = []"
    by (simp add: stub_world_def stub_CompileGraphs_def)
  have l: "load_compiler ?w = Inr ()"
    by (simp add: load_compiler_def stub_world_def)
  have a: "SequentialTableReader ?w (positional ?w ! 3) \<noteq> []"
    by (simp add: stub_world_def)
  from C9_batched_loop_ends_iff_batch_size_positive[OF h1 h2 h3] l a
  have "main ?w = None" by simp
  with h1 h2 h3 l show ?thesis by blast
qed

text \<open>
  Claim C10. With \<^verbatim>\<open>batch_size\<close> 1, each turn of the loop writes one graph under the
  utterance's key and adds one to \<^verbatim>\<open>num_succeed\<close> exactly when that graph has a start
  state, and one to \<^verbatim>\<open>num_fail\<close> otherwise. When \<^verbatim>\<open>CompileGraph\<close> returns false the
  graph written is the compiled one with its states deleted, which has no start state,
  so the utterance counts as failed; when it returns true with a graph that has no
  states (and a start state that respects the transducer interface) the utterance
  counts as failed too. At the end of the run the two counters are the numbers of
  entries written with and without a start state.
\<close>

theorem C10_sequential_count_follows_start_state:
  fixes CG :: "('c, 'w) CompileGraph_fn" and CGs :: "('c, 'w) CompileGraphs_fn"
  assumes "CG gc grammar VectorFst_new = (ok, compiled, gc')"
  shows "(\<exists>decode_fst st'.
            sequential_body CG gc st key grammar = (gc', st')
          \<and> fst_writer st' = fst_writer st @ [(key, decode_fst)]
          \<and> (if Start decode_fst \<noteq> kNoStateId
             then num_succeed st' = num_succeed st + 1 \<and> num_fail st' = num_fail st
             else num_succeed st' = num_succeed st \<and> num_fail st' = num_fail st + 1)
          \<and> (\<not> ok \<longrightarrow> decode_fst = DeleteStates compiled \<and> Start decode_fst = kNoStateId)
          \<and> (ok \<longrightarrow> decode_fst = compiled)
          \<and> (ok \<and> States compiled = [] \<and> valid_start compiled \<longrightarrow> Start decode_fst = kNoStateId))
       \<and> (\<exists>gc_end st_end.
            compile_all 1 CG CGs gc0 archive = Some (Inr (gc_end, [], st_end)) \<and> counted st_end)"
proof
  let ?d = "if ok then compiled else VectorFst_new"
  let ?st' = "\<lparr>fst_writer = fst_writer st @ [(key, ?d)],
               num_succeed = num_succeed st + (if ok \<and> Start compiled \<noteq> kNoStateId then 1 else 0),
               num_fail = num_fail st + (if ok \<and> Start compiled \<noteq> kNoStateId then 0 else 1)\<rparr>"
  have b: "sequential_body CG gc st key grammar = (gc', ?st')"
    by (rule sequential_body_eq[where CG = CG, OF assms])
  have "fst_writer ?st' = fst_writer st @ [(key, ?d)]" by simp
  moreover have "if Start ?d \<noteq> kNoStateId
             then num_succeed ?st' = num_succeed st + 1 \<and> num_fail ?st' = num_fail st
             else num_succeed ?st' = num_succeed st \<and> num_fail ?st' = num_fail st + 1"
    by (simp add: VectorFst_new_def)
  moreover have "\<not> ok \<longrightarrow> ?d = DeleteStates compiled \<and> Start ?d = kNoStateId"
    by (simp add: DeleteStates_new) (simp add: VectorFst_new_def)
  moreover have "ok \<longrightarrow> ?d = compiled" by simp
  moreover have "ok \<and> States compiled = [] \<and> valid_start compiled \<longrightarrow> Start ?d = kNoStateId"
    by (auto simp: valid_start_def)
  ultimately show "\<exists>decode_fst st'.
            sequential_body CG gc st key grammar = (gc', st')
          \<and> fst_writer st' = fst_writer st @ [(key, decode_fst)]
          \<and> (if Start decode_fst \<noteq> kNoStateId
             then num_succeed st' = num_succeed st + 1 \<and> num_fail st' = num_fail st
             else num_succeed st' = num_succeed st \<and> num_fail st' = num_fail st + 1)
          \<and> (\<not> ok \<longrightarrow> decode_fst = DeleteStates compiled \<and> Start decode_fst = kNoStateId)
          \<and> (ok \<longrightarrow> decode_fst = compiled)
          \<and> (ok \<and> States compiled = [] \<and> valid_start compiled \<longrightarrow> Start decode_fst = kNoStateId)"
    using b by (intro exI[of _ ?d] exI[of _ ?st']) blast
next
  let ?st0 = "\<lparr>fst_writer = [], num_succeed = 0, num_fail = 0\<rparr> :: 'w run_state"
  obtain gc_end st_end where l: "sequential_loop CG gc0 ?st0 archive = (gc_end, st_end)"
    by (cases "sequential_loop CG gc0 ?st0 archive")
  have "counted ?st0" by (simp add: counted_def)
  from sequential_loop_counted[OF this l] have "counted st_end" .
  with l show "\<exists>gc_end st_end.
      compile_all 1 CG CGs gc0 archive = Some (Inr (gc_end, [], st_end)) \<and> counted st_end"
    by (simp add: compile_all_def)
qed

theorem C10_sequential_count_follows_start_state_witness:
  "(\<lambda>gc grammar decode_fst. (True, grammar, gc)) () (VectorFst_new :: int VectorFst) VectorFst_new
     = (True, VectorFst_new, ())
   \<and> States (VectorFst_new :: int VectorFst) = [] \<and> valid_start (VectorFst_new :: int VectorFst)
   \<and> (\<exists>decode_fst st'.
        sequential_body (\<lambda>gc grammar decode_fst. (True, grammar, gc)) ()
          \<lparr>fst_writer = [], num_succeed = 0, num_fail = 0\<rparr> ''utt1'' (VectorFst_new :: int VectorFst)
          = ((), st')
        \<and> fst_writer st' = [(''utt1'', decode_fst)] \<and> Start decode_fst = kNoStateId
        \<and> num_succeed st' = 0 \<and> num_fail st' = 1)"
proof -
  have h: "(\<lambda>gc grammar decode_fst. (True, grammar, gc)) () (VectorFst_new :: int VectorFst) VectorFst_new
     = (True, VectorFst_new, ())" by simp
  have v: "States (VectorFst_new :: int VectorFst) = []" "valid_start (VectorFst_new :: int VectorFst)"
    by (simp_all add: VectorFst_new_def valid_start_def)
  let ?st0 = "\<lparr>fst_writer = [], num_succeed = 0, num_fail = 0\<rparr> :: int run_state"
  from C10_sequential_count_follows_start_state[where CG = "\<lambda>gc grammar decode_fst. (True, grammar, gc)",
      OF h, of ?st0 "''utt1''" stub_CompileGraphs "()" "[]"]
  obtain decode_fst st' where
    b: "sequential_body (\<lambda>gc grammar decode_fst. (True, grammar, gc)) () ?st0 ''utt1''
          (VectorFst_new :: int VectorFst) = ((), st')"
    and w: "fst_writer st' = fst_writer ?st0 @ [(''utt1'', decode_fst)]"
    and c: "if Start decode_fst \<noteq> kNoStateId
            then num_succeed st' = num_succeed ?st0 + 1 \<and> num_fail st' = num_fail ?st0
            else num_succeed st' = num_succeed ?st0 \<and> num_fail st' = num_fail ?st0 + 1"
    and e: "True \<and> States (VectorFst_new :: int VectorFst) = [] \<and> valid_start (VectorFst_new :: int VectorFst)
            \<longrightarrow> Start decode_fst = kNoStateId"
    by blast
  from e v have s: "Start decode_fst = kNoStateId" by simp
  with c have "num_succeed st' = 0" "num_fail st' = 1" by simp_all
  moreover from w have "fst_writer st' = [(''utt1'', decode_fst)]" by simp
  ultimately show ?thesis using b s v h by blast
qed

end
